theory Spec2Isabelle
  imports
    Main
    "HOL-Library.Char_ord"
    "HOL-Library.List_Lexorder"
    "HOL-Library.Product_Lexorder"
begin

section \<open>Text\<close>

text \<open>
  The compactor works on Python \<^verbatim>\<open>str\<close> values. A character is modelled by its code
  point, for the code points below 256 that \<^typ>\<open>char\<close> has; the character classes below
  are the ones Python's \<^verbatim>\<open>str.isspace\<close>, \<^verbatim>\<open>str.isupper\<close> and \<^verbatim>\<open>str.islower\<close> assign to
  these code points.
\<close>

definition codepoint :: "char \<Rightarrow> int" where
  "codepoint c = of_char c"

definition isspace :: "char \<Rightarrow> bool" where
  "isspace c = (codepoint c \<in> {9, 10, 11, 12, 13, 28, 29, 30, 31, 32, 133, 160})"

definition upper_letter :: "char \<Rightarrow> bool" where
  "upper_letter c = (let n = codepoint c in
     (65 \<le> n \<and> n \<le> 90) \<or> (192 \<le> n \<and> n \<le> 214) \<or> (216 \<le> n \<and> n \<le> 222))"

definition lower_letter :: "char \<Rightarrow> bool" where
  "lower_letter c = (let n = codepoint c in
     (97 \<le> n \<and> n \<le> 122) \<or> n = 170 \<or> n = 181 \<or> n = 186
     \<or> (223 \<le> n \<and> n \<le> 246) \<or> (248 \<le> n \<and> n \<le> 255))"

text \<open>
  \<^verbatim>\<open>s.isupper()\<close>: no lowercase character, and at least one uppercase one. Characters
  that have no case (digits, punctuation) do not matter.
\<close>

definition isupper :: "string \<Rightarrow> bool" where
  "isupper s = (list_ex upper_letter s \<and> \<not> list_ex lower_letter s)"

text \<open>\<^verbatim>\<open>s.strip()\<close> and \<^verbatim>\<open>s.split()\<close>, both without arguments.\<close>

definition strip :: "string \<Rightarrow> string" where
  "strip s = rev (dropWhile isspace (rev (dropWhile isspace s)))"

fun split_scan :: "string \<Rightarrow> string \<Rightarrow> string list" where
  "split_scan cur [] = (if cur = [] then [] else [rev cur])"
| "split_scan cur (c # cs) =
     (if isspace c then (if cur = [] then split_scan [] cs else rev cur # split_scan [] cs)
      else split_scan (c # cur) cs)"

definition split_ws :: "string \<Rightarrow> string list" where
  "split_ws s = split_scan [] s"

text \<open>\<^verbatim>\<open>part.split('=', 1)\<close> for a part that contains \<^verbatim>\<open>=\<close>: cut at the first one.\<close>

definition split_eq :: "string \<Rightarrow> string \<times> string" where
  "split_eq part = (takeWhile (\<lambda>c. c \<noteq> CHR ''='') part, tl (dropWhile (\<lambda>c. c \<noteq> CHR ''='') part))"

definition is_digit :: "char \<Rightarrow> bool" where
  "is_digit c = (48 \<le> codepoint c \<and> codepoint c \<le> 57)"

definition digit_val :: "char \<Rightarrow> int" where
  "digit_val c = codepoint c - 48"

text \<open>
  \<^verbatim>\<open>int(s)\<close> in base 10: surrounding whitespace, an optional sign, then digits, where a
  single underscore may stand between two digits. \<^verbatim>\<open>ValueError\<close> is \<open>None\<close>. (The
  interpreter's limit on the number of digits, 4300 by default since Python 3.11, is
  not modelled.)
\<close>

fun int_digits :: "bool \<Rightarrow> int \<Rightarrow> string \<Rightarrow> int option" where
  "int_digits prev acc [] = (if prev then Some acc else None)"
| "int_digits prev acc (c # cs) =
     (if is_digit c then int_digits True (10 * acc + digit_val c) cs
      else if c = CHR ''_'' \<and> prev then int_digits False acc cs
      else None)"

definition py_int :: "string \<Rightarrow> int option" where
  "py_int s = (case strip s of
       [] \<Rightarrow> None
     | c # cs \<Rightarrow>
         if c = CHR ''-'' then map_option uminus (int_digits False 0 cs)
         else if c = CHR ''+'' then int_digits False 0 cs
         else int_digits False 0 (c # cs))"

section \<open>Timestamps\<close>

text \<open>
  A \<^verbatim>\<open>datetime\<close> is kept as the number of microseconds of its own date and time fields
  since 0001-01-01T00:00:00, with the UTC offset (in microseconds) of its \<^verbatim>\<open>tzinfo\<close>, if
  it has one. A datetime without offset is \<^emph>\<open>naive\<close>, one with an offset \<^emph>\<open>aware\<close>.
\<close>

datatype datetime = Datetime (wall: int) (utcoffset: "int option")

datatype error = TypeError | OverflowError

definition is_leap :: "int \<Rightarrow> bool" where
  "is_leap y = (y mod 4 = 0 \<and> (y mod 100 \<noteq> 0 \<or> y mod 400 = 0))"

definition days_in_month :: "int \<Rightarrow> int \<Rightarrow> int" where
  "days_in_month y m =
     (if m = 2 \<and> is_leap y then 29
      else [31, 28, 31, 30, 31, 30, 31, 31, 30, 31, 30, 31] ! nat (m - 1))"

definition days_before_year :: "int \<Rightarrow> int" where
  "days_before_year y = (let p = y - 1 in p * 365 + p div 4 - p div 100 + p div 400)"

definition days_before_month :: "int \<Rightarrow> int \<Rightarrow> int" where
  "days_before_month y m =
     [0, 31, 59, 90, 120, 151, 181, 212, 243, 273, 304, 334] ! nat (m - 1)
     + (if 2 < m \<and> is_leap y then 1 else 0)"

definition ymd2ord :: "int \<Rightarrow> int \<Rightarrow> int \<Rightarrow> int" where
  "ymd2ord y m d = days_before_year y + days_before_month y m + d"

definition max_wall :: int where
  "max_wall = 3652059 * 86400000000 - 1"

text \<open>
  The constructor: \<^verbatim>\<open>ValueError\<close> (here \<open>None\<close>) for a field out of range, and for an offset
  that is not strictly between minus and plus 24 hours.
\<close>

definition new_datetime ::
  "int \<Rightarrow> int \<Rightarrow> int \<Rightarrow> int \<Rightarrow> int \<Rightarrow> int \<Rightarrow> int \<Rightarrow> int option \<Rightarrow> datetime option" where
  "new_datetime y m d hh mm ss us tz =
     (if 1 \<le> y \<and> y \<le> 9999 \<and> 1 \<le> m \<and> m \<le> 12 \<and> 1 \<le> d \<and> d \<le> days_in_month y m
         \<and> 0 \<le> hh \<and> hh \<le> 23 \<and> 0 \<le> mm \<and> mm \<le> 59 \<and> 0 \<le> ss \<and> ss \<le> 59
         \<and> 0 \<le> us \<and> us \<le> 999999
         \<and> (case tz of None \<Rightarrow> True | Some off \<Rightarrow> - 86400000000 < off \<and> off < 86400000000)
      then Some (Datetime (((ymd2ord y m d - 1) * 86400 + hh * 3600 + mm * 60 + ss) * 1000000 + us)
                          tz)
      else None)"

text \<open>
  \<^verbatim>\<open>datetime.fromisoformat\<close>, for the format that \<^verbatim>\<open>datetime.isoformat\<close> writes and that
  the function is documented to read back:
  \<^verbatim>\<open>YYYY-MM-DD[*HH[:MM[:SS[.fff[fff]]]][+HH:MM[:SS[.ffffff]]]]\<close>, where \<^verbatim>\<open>*\<close> is any one
  character. Since Python 3.11 the function reads further ISO 8601 spellings (basic
  format, week dates, a trailing \<^verbatim>\<open>Z\<close>, fractions of other lengths), so a string that
  is rejected here may be accepted there, while a string accepted here is accepted there
  with the same value; no result below depends on a string being rejected. An offset of
  less than one second is read as UTC.
\<close>

definition parse_digits :: "string \<Rightarrow> int option" where
  "parse_digits s =
     (if s \<noteq> [] \<and> list_all is_digit s then Some (foldl (\<lambda>a c. 10 * a + digit_val c) 0 s)
      else None)"

definition parse_isoformat_date :: "string \<Rightarrow> (int \<times> int \<times> int) option" where
  "parse_isoformat_date dstr =
     (if length dstr = 10 \<and> dstr ! 4 = CHR ''-'' \<and> dstr ! 7 = CHR ''-'' then
        (case (parse_digits (take 4 dstr), parse_digits (take 2 (drop 5 dstr)),
               parse_digits (drop 8 dstr)) of
           (Some y, Some m, Some d) \<Rightarrow> Some (y, m, d)
         | _ \<Rightarrow> None)
      else None)"

definition parse_hh_mm_ss_ff :: "string \<Rightarrow> (int \<times> int \<times> int \<times> int) option" where
  "parse_hh_mm_ss_ff tstr =
     (let n = length tstr in
      if n = 2 then
        (case parse_digits tstr of Some hh \<Rightarrow> Some (hh, 0, 0, 0) | None \<Rightarrow> None)
      else if n = 5 \<and> tstr ! 2 = CHR '':'' then
        (case (parse_digits (take 2 tstr), parse_digits (drop 3 tstr)) of
           (Some hh, Some mm) \<Rightarrow> Some (hh, mm, 0, 0)
         | _ \<Rightarrow> None)
      else if n = 8 \<and> tstr ! 2 = CHR '':'' \<and> tstr ! 5 = CHR '':'' then
        (case (parse_digits (take 2 tstr), parse_digits (take 2 (drop 3 tstr)),
               parse_digits (drop 6 tstr)) of
           (Some hh, Some mm, Some ss) \<Rightarrow> Some (hh, mm, ss, 0)
         | _ \<Rightarrow> None)
      else if (n = 12 \<or> n = 15) \<and> tstr ! 2 = CHR '':'' \<and> tstr ! 5 = CHR '':''
              \<and> tstr ! 8 = CHR ''.'' then
        (case (parse_digits (take 2 tstr), parse_digits (take 2 (drop 3 tstr)),
               parse_digits (take 2 (drop 6 tstr)), parse_digits (drop 9 tstr)) of
           (Some hh, Some mm, Some ss, Some ff) \<Rightarrow>
             Some (hh, mm, ss, if n = 12 then ff * 1000 else ff)
         | _ \<Rightarrow> None)
      else None)"

definition is_sign :: "char \<Rightarrow> bool" where
  "is_sign c = (c = CHR ''+'' \<or> c = CHR ''-'')"

definition parse_isoformat_time :: "string \<Rightarrow> ((int \<times> int \<times> int \<times> int) \<times> int option) option" where
  "parse_isoformat_time tstr =
     (let timestr = takeWhile (\<lambda>c. \<not> is_sign c) tstr;
          rest = dropWhile (\<lambda>c. \<not> is_sign c) tstr
      in case parse_hh_mm_ss_ff timestr of
           None \<Rightarrow> None
         | Some time_comps \<Rightarrow>
             (case rest of
                [] \<Rightarrow> Some (time_comps, None)
              | sign # tzstr \<Rightarrow>
                  if length tzstr \<notin> {5, 8, 15} then None
                  else (case parse_hh_mm_ss_ff tzstr of
                          None \<Rightarrow> None
                        | Some (hh, mm, ss, us) \<Rightarrow>
                            if hh * 3600 + mm * 60 + ss = 0 then Some (time_comps, Some 0)
                            else Some (time_comps,
                                       Some ((if sign = CHR ''-'' then - 1 else 1)
                                             * ((hh * 3600 + mm * 60 + ss) * 1000000 + us))))))"

definition fromisoformat :: "string \<Rightarrow> datetime option" where
  "fromisoformat date_string =
     (if length date_string < 10 then None
      else case parse_isoformat_date (take 10 date_string) of
             None \<Rightarrow> None
           | Some (y, m, d) \<Rightarrow>
               if length date_string = 10 then new_datetime y m d 0 0 0 0 None
               else (case parse_isoformat_time (drop 11 date_string) of
                       None \<Rightarrow> None
                     | Some ((hh, mm, ss, us), tz) \<Rightarrow> new_datetime y m d hh mm ss us tz))"

text \<open>
  Comparing two datetimes: two naive ones by their fields, two aware ones by their UTC
  instants, and \<^verbatim>\<open>TypeError\<close> for a naive and an aware one.
\<close>

definition utc_instant :: "datetime \<Rightarrow> int" where
  "utc_instant t = (case utcoffset t of None \<Rightarrow> wall t | Some off \<Rightarrow> wall t - off)"

definition aware :: "datetime \<Rightarrow> bool" where
  "aware t = (utcoffset t \<noteq> None)"

definition dt_le :: "datetime \<Rightarrow> datetime \<Rightarrow> error + bool" where
  "dt_le a b = (if aware a \<noteq> aware b then Inl TypeError else Inr (utc_instant a \<le> utc_instant b))"

text \<open>
  \<^verbatim>\<open>t + timedelta(seconds=s)\<close>: \<^verbatim>\<open>OverflowError\<close> when the timedelta has more than
  999999999 days, and when the sum leaves the years 1 to 9999. The sum keeps the offset.
\<close>

definition dt_add_seconds :: "datetime \<Rightarrow> int \<Rightarrow> error + datetime" where
  "dt_add_seconds t s =
     (if s div 86400 < - 999999999 \<or> 999999999 < s div 86400 then Inl OverflowError
      else let w = wall t + s * 1000000
           in if 0 \<le> w \<and> w \<le> max_wall then Inr (Datetime w (utcoffset t)) else Inl OverflowError)"

section \<open>Rendering\<close>

text \<open>
  \<^verbatim>\<open>datetime.isoformat\<close>, \<^verbatim>\<open>time.isoformat\<close> and \<^verbatim>\<open>str\<close> of a count, for the output lines.
  The date fields are recovered from the day number as the library does.
\<close>

fun str_int :: "int \<Rightarrow> string" where
  "str_int n = (if n < 10 then [''0123456789'' ! nat n]
                else str_int (n div 10) @ [''0123456789'' ! nat (n mod 10)])"

declare str_int.simps [simp del]

definition zfill :: "nat \<Rightarrow> string \<Rightarrow> string" where
  "zfill k s = replicate (k - length s) CHR ''0'' @ s"

definition ord2ymd :: "int \<Rightarrow> int \<times> int \<times> int" where
  "ord2ymd ordinal =
     (let n = ordinal - 1;
          n400 = n div 146097; n = n mod 146097;
          n100 = n div 36524; n = n mod 36524;
          n4 = n div 1461; n = n mod 1461;
          n1 = n div 365; n = n mod 365;
          year = n400 * 400 + 1 + n100 * 100 + n4 * 4 + n1
      in if n1 = 4 \<or> n100 = 4 then (year - 1, 12, 31)
         else let leapyear = (n1 = 3 \<and> (n4 \<noteq> 24 \<or> n100 = 3));
                  month = (n + 50) div 32;
                  preceding = days_before_month 1 month + (if 2 < month \<and> leapyear then 1 else 0)
              in if n < preceding
                 then (year, month - 1,
                       n - (preceding - (days_in_month 1 (month - 1)
                                         + (if month - 1 = 2 \<and> leapyear then 1 else 0))) + 1)
                 else (year, month, n - preceding + 1))"

definition date_isoformat :: "datetime \<Rightarrow> string" where
  "date_isoformat t =
     (case ord2ymd (wall t div 86400000000 + 1) of
        (y, m, d) \<Rightarrow> zfill 4 (str_int y) @ ''-'' @ zfill 2 (str_int m) @ ''-'' @ zfill 2 (str_int d))"

definition time_isoformat :: "datetime \<Rightarrow> string" where
  "time_isoformat t =
     (let us_of_day = wall t mod 86400000000;
          secs = us_of_day div 1000000; us = us_of_day mod 1000000
      in zfill 2 (str_int (secs div 3600)) @ '':'' @ zfill 2 (str_int (secs mod 3600 div 60))
         @ '':'' @ zfill 2 (str_int (secs mod 60))
         @ (if us \<noteq> 0 then ''.'' @ zfill 6 (str_int us) else []))"

definition format_offset :: "int option \<Rightarrow> string" where
  "format_offset tz =
     (case tz of
        None \<Rightarrow> []
      | Some off \<Rightarrow>
          (let a = \<bar>off\<bar>; secs = a div 1000000; us = a mod 1000000
           in (if off < 0 then ''-'' else ''+'')
              @ zfill 2 (str_int (secs div 3600)) @ '':'' @ zfill 2 (str_int (secs mod 3600 div 60))
              @ (if secs mod 60 \<noteq> 0 \<or> us \<noteq> 0
                 then '':'' @ zfill 2 (str_int (secs mod 60))
                      @ (if us \<noteq> 0 then ''.'' @ zfill 6 (str_int us) else [])
                 else [])))"

definition isoformat :: "datetime \<Rightarrow> string" where
  "isoformat t = date_isoformat t @ ''T'' @ time_isoformat t @ format_offset (utcoffset t)"

text \<open>\<^verbatim>\<open>a == b\<close> on datetimes: a naive and an aware one are unequal, without an error.\<close>

definition dt_eq :: "datetime \<Rightarrow> datetime \<Rightarrow> bool" where
  "dt_eq a b = (aware a = aware b \<and> utc_instant a = utc_instant b)"

section \<open>The compactor\<close>

subsection \<open>Field dictionaries\<close>

text \<open>
  A \<^verbatim>\<open>dict\<close> of strings is an association list in insertion order: assigning to a key
  that is present replaces its value in place, assigning to a new key appends it.
\<close>

type_synonym fields = "(string \<times> string) list"

fun dict_get :: "fields \<Rightarrow> string \<Rightarrow> string option" where
  "dict_get [] k = None"
| "dict_get ((k', v') # rest) k = (if k' = k then Some v' else dict_get rest k)"

fun dict_set :: "fields \<Rightarrow> string \<Rightarrow> string \<Rightarrow> fields" where
  "dict_set [] k v = [(k, v)]"
| "dict_set ((k', v') # rest) k v =
     (if k' = k then (k, v) # rest else (k', v') # dict_set rest k v)"

subsection \<open>The helpers of \<^verbatim>\<open>compact_logs\<close>\<close>

definition parse_timestamp :: "string \<Rightarrow> datetime option" where
  "parse_timestamp ts = fromisoformat ts"

fun parse_fields_loop :: "fields \<Rightarrow> string list \<Rightarrow> fields option" where
  "parse_fields_loop fields [] = Some fields"
| "parse_fields_loop fields (part # parts) =
     (if CHR ''='' \<notin> set part then None
      else case split_eq part of
             (key, val) \<Rightarrow> parse_fields_loop (dict_set fields key val) parts)"

definition parse_fields :: "string list \<Rightarrow> fields option" where
  "parse_fields parts = parse_fields_loop [] parts"

definition normalize_user_field :: "fields \<Rightarrow> fields option" where
  "normalize_user_field fields =
     (let user = dict_get fields ''user'';
          user_id = dict_get fields ''user_id''
      in case user_id of
           None \<Rightarrow> Some fields
         | Some uid \<Rightarrow>
             if user \<noteq> None \<and> user \<noteq> Some uid then None
             else Some (dict_set (filter (\<lambda>(k, v). k \<noteq> ''user_id'') fields) ''user'' uid))"

definition apply_code_override :: "string \<Rightarrow> fields \<Rightarrow> string" where
  "apply_code_override level fields =
     (case dict_get fields ''code'' of
        None \<Rightarrow> level
      | Some v \<Rightarrow>
          (case py_int v of
             None \<Rightarrow> level
           | Some code \<Rightarrow> if 500 \<le> code \<and> code \<le> 599 then ''ERROR'' else level))"

type_synonym group_key = "string \<times> (string \<times> string) list"

definition make_group_key :: "string \<Rightarrow> fields \<Rightarrow> group_key" where
  "make_group_key level fields = (level, sort fields)"

definition format_timestamp_range :: "datetime \<Rightarrow> datetime \<Rightarrow> string" where
  "format_timestamp_range start end =
     (let start_str = isoformat start;
          end_str = (if wall start div 86400000000 = wall end div 86400000000
                     then time_isoformat end else isoformat end)
      in if dt_eq start end then start_str else start_str @ ''~'' @ end_str)"

fun join_fields :: "(string \<times> string) list \<Rightarrow> string" where
  "join_fields [] = []"
| "join_fields [(k, v)] = k @ ''='' @ v"
| "join_fields ((k, v) # rest) = k @ ''='' @ v @ '' '' @ join_fields rest"

definition format_output :: "datetime \<Rightarrow> datetime \<Rightarrow> string \<Rightarrow> fields \<Rightarrow> nat \<Rightarrow> string" where
  "format_output start_ts end_ts level fields n =
     (let ts_range = format_timestamp_range start_ts end_ts;
          sorted_fields = join_fields (sort fields)
      in if n = 1 then ts_range @ '' '' @ level @ '' '' @ sorted_fields
         else ts_range @ '' '' @ level @ '' '' @ sorted_fields @ '' (x'' @ str_int (int n) @ '')'')"

subsection \<open>Reading and parsing\<close>

text \<open>
  The source, as the reading loop sees it: the lines it delivers, and whether opening or
  reading then fails with an I/O error instead of reaching the end of the file. (A file
  that cannot be decoded raises an error that is not an I/O error; such files are
  outside the model.)
\<close>

datatype source = Source (lines: "string list") (io_error: bool)

type_synonym log = "datetime \<times> string \<times> fields \<times> nat"

text \<open>The body of the reading loop for one line; \<open>None\<close> is each of its \<^verbatim>\<open>continue\<close>s.\<close>

definition parse_line :: "string \<Rightarrow> (datetime \<times> string \<times> fields) option" where
  "parse_line raw =
     (let line = strip raw in
      if line = [] then None
      else let parts = split_ws line in
      if length parts < 2 then None
      else let ts_str = parts ! 0; level = parts ! 1 in
      case parse_timestamp ts_str of
        None \<Rightarrow> None
      | Some ts \<Rightarrow>
          if level = [] \<or> \<not> isupper level then None
          else (case parse_fields (drop 2 parts) of
                  None \<Rightarrow> None
                | Some fields \<Rightarrow>
                    (case normalize_user_field fields of
                       None \<Rightarrow> None
                     | Some fields \<Rightarrow> Some (ts, apply_code_override level fields, fields))))"

fun read_loop :: "log list \<Rightarrow> nat \<Rightarrow> string list \<Rightarrow> log list" where
  "read_loop logs line_idx [] = logs"
| "read_loop logs line_idx (raw # rest) =
     (case parse_line raw of
        None \<Rightarrow> read_loop logs line_idx rest
      | Some (ts, level, fields) \<Rightarrow>
          read_loop (logs @ [(ts, level, fields, line_idx)]) (line_idx + 1) rest)"

definition read_logs :: "string list \<Rightarrow> log list" where
  "read_logs ls = read_loop [] 0 ls"

subsection \<open>Grouping\<close>

text \<open>
  \<^verbatim>\<open>groups\<close> is a \<^verbatim>\<open>defaultdict(list)\<close>; it is iterated in the order in which its keys were
  first inserted.
\<close>

type_synonym groups = "(group_key \<times> log list) list"

fun groups_append :: "groups \<Rightarrow> group_key \<Rightarrow> log \<Rightarrow> groups" where
  "groups_append [] k x = [(k, [x])]"
| "groups_append ((k', xs) # rest) k x =
     (if k' = k then (k', xs @ [x]) # rest else (k', xs) # groups_append rest k x)"

fun group_loop :: "groups \<Rightarrow> log list \<Rightarrow> groups" where
  "group_loop groups [] = groups"
| "group_loop groups ((ts, level, fields, idx) # rest) =
     group_loop (groups_append groups (make_group_key level fields) (ts, level, fields, idx)) rest"

definition make_groups :: "log list \<Rightarrow> groups" where
  "make_groups logs = group_loop [] logs"

subsection \<open>Windowing\<close>

definition log_ts :: "log \<Rightarrow> datetime" where
  "log_ts x = fst x"

text \<open>
  The inner loop: from position \<open>j\<close> on, the records whose timestamp is at most
  \<open>window_end\<close> join the window, up to the first one that is later. It returns the records
  taken and the records left.
\<close>

fun absorb :: "datetime \<Rightarrow> log list \<Rightarrow> error + (log list \<times> log list)" where
  "absorb window_end [] = Inr ([], [])"
| "absorb window_end (x # xs) =
     (case dt_le (log_ts x) window_end of
        Inl err \<Rightarrow> Inl err
      | Inr False \<Rightarrow> Inr ([], x # xs)
      | Inr True \<Rightarrow>
          (case absorb window_end xs of
             Inl err \<Rightarrow> Inl err
           | Inr (taken, left) \<Rightarrow> Inr (x # taken, left)))"

text \<open>The outer loop over one group: the list of its windows, in order.\<close>

function window_loop :: "int \<Rightarrow> log list \<Rightarrow> error + log list list" where
  "window_loop dedup_window_seconds [] = Inr []"
| "window_loop dedup_window_seconds (x # xs) =
     (case dt_add_seconds (log_ts x) dedup_window_seconds of
        Inl err \<Rightarrow> Inl err
      | Inr window_end \<Rightarrow>
          (case absorb window_end xs of
             Inl err \<Rightarrow> Inl err
           | Inr (taken, left) \<Rightarrow>
               (case window_loop dedup_window_seconds left of
                  Inl err \<Rightarrow> Inl err
                | Inr windows \<Rightarrow> Inr ((x # taken) # windows))))"
  by pat_completeness auto
termination
proof (relation "measure (\<lambda>(w, xs). length xs)")
  have shorter: "length left \<le> length xs" if "absorb window_end xs = Inr (taken, left)"
    for window_end xs taken left
    using that by (induction xs arbitrary: taken left) (auto split: sum.splits bool.splits)
  fix dedup_window_seconds :: int and x :: log and xs window_end y taken left
  assume "absorb window_end xs = Inr y" and "(taken, left) = y"
  then have "absorb window_end xs = Inr (taken, left)"
    by simp
  then have "length left \<le> length xs"
    by (rule shorter)
  then show "((dedup_window_seconds, left), (dedup_window_seconds, x # xs))
             \<in> measure (\<lambda>(w, xs). length xs)"
    by simp
qed simp

subsection \<open>Summaries\<close>

text \<open>
  What the loop computes for one window: the arguments of \<^verbatim>\<open>format_output\<close> and the
  sort key. The source stores the rendered line with the key; here the line is rendered
  when it is emitted.
\<close>

datatype summary =
  Summary (start_ts: datetime) (end_ts: datetime) (output_level: string)
          (summary_fields: fields) (count: nat) (first_idx: nat)

definition window_summary :: "string \<Rightarrow> int \<Rightarrow> log list \<Rightarrow> summary" where
  "window_summary level error_threshold window_group =
     (let escalated = (error_threshold \<le> int (length window_group) \<and> level = ''ERROR'')
      in Summary (fst (hd window_group))
                 (fst (last window_group))
                 (if escalated then ''CRITICAL'' else level)
                 (fst (snd (snd (hd window_group))))
                 (length window_group)
                 (snd (snd (snd (hd window_group)))))"

fun compacted_loop :: "int \<Rightarrow> int \<Rightarrow> groups \<Rightarrow> error + summary list" where
  "compacted_loop dedup_window_seconds error_threshold [] = Inr []"
| "compacted_loop dedup_window_seconds error_threshold ((group_key, group_logs) # rest) =
     (case window_loop dedup_window_seconds group_logs of
        Inl err \<Rightarrow> Inl err
      | Inr windows \<Rightarrow>
          (case compacted_loop dedup_window_seconds error_threshold rest of
             Inl err \<Rightarrow> Inl err
           | Inr more \<Rightarrow> Inr (map (window_summary (fst group_key) error_threshold) windows @ more)))"

text \<open>
  \<^verbatim>\<open>compacted.sort(key=lambda x: (x[0], x[1]))\<close>. The sort is stable. Comparing two keys
  compares the start timestamps first, so a list with a naive and an aware start cannot
  be ordered without comparing one of each kind: \<^verbatim>\<open>TypeError\<close>.
\<close>

definition sort_key_of :: "summary \<Rightarrow> int \<times> nat" where
  "sort_key_of s = (utc_instant (start_ts s), first_idx s)"

definition sort_compacted :: "summary list \<Rightarrow> error + summary list" where
  "sort_compacted compacted =
     (if list_ex (\<lambda>s. aware (start_ts s)) compacted \<and> list_ex (\<lambda>s. \<not> aware (start_ts s)) compacted
      then Inl TypeError
      else Inr (sort_key sort_key_of compacted))"

subsection \<open>\<^verbatim>\<open>compact_logs\<close>\<close>

text \<open>
  The summaries in the order in which they are emitted. An I/O error ends the generator
  before anything is emitted; any other error leaves it as an exception.
\<close>

definition compact_summaries :: "source \<Rightarrow> int \<Rightarrow> int \<Rightarrow> error + summary list" where
  "compact_summaries src dedup_window_seconds error_threshold =
     (let logs = read_logs (lines src) in
      if io_error src then Inr []
      else case compacted_loop dedup_window_seconds error_threshold (make_groups logs) of
             Inl err \<Rightarrow> Inl err
           | Inr compacted \<Rightarrow> sort_compacted compacted)"

definition format_summary :: "summary \<Rightarrow> string" where
  "format_summary s =
     format_output (start_ts s) (end_ts s) (output_level s) (summary_fields s) (count s)"

definition compact_logs :: "source \<Rightarrow> int \<Rightarrow> int \<Rightarrow> error + string list" where
  "compact_logs src dedup_window_seconds error_threshold =
     (case compact_summaries src dedup_window_seconds error_threshold of
        Inl err \<Rightarrow> Inl err
      | Inr compacted \<Rightarrow> Inr (map format_summary compacted))"

section \<open>Notions for stating the properties\<close>

text \<open>
  What a run hands to its caller: the generator yields nothing before the whole
  computation is done, so a run that raises has emitted nothing.
\<close>

definition emitted :: "error + 'a list \<Rightarrow> 'a list" where
  "emitted r = (case r of Inl err \<Rightarrow> [] | Inr xs \<Rightarrow> xs)"

definition log_idx :: "log \<Rightarrow> nat" where
  "log_idx x = snd (snd (snd x))"

definition log_key :: "log \<Rightarrow> group_key" where
  "log_key x = make_group_key (fst (snd x)) (fst (snd (snd x)))"

definition instant :: "log \<Rightarrow> int" where
  "instant x = utc_instant (log_ts x)"

text \<open>The windows of every group, group by group, as the loop over the groups forms them.\<close>

definition group_windows :: "int \<Rightarrow> log list \<Rightarrow> (error + log list list) list" where
  "group_windows dedup_window_seconds logs =
     map (\<lambda>(group_key, group_logs). window_loop dedup_window_seconds group_logs) (make_groups logs)"

text \<open>
  The grouper in the specification's words: it sorts the members of a group by
  timestamp, ties by sequence index, and walks the sorted list. This definition follows
  the specification, not the source; it is what the source is compared with.
\<close>

definition spec_sort_group :: "log list \<Rightarrow> log list" where
  "spec_sort_group group_logs = sort_key (\<lambda>x. (instant x, log_idx x)) group_logs"

definition spec_window_loop :: "int \<Rightarrow> log list \<Rightarrow> error + log list list" where
  "spec_window_loop dedup_window_seconds group_logs =
     window_loop dedup_window_seconds (spec_sort_group group_logs)"

definition spec_group_windows :: "int \<Rightarrow> log list \<Rightarrow> (error + log list list) list" where
  "spec_group_windows dedup_window_seconds logs =
     map (\<lambda>(group_key, group_logs). spec_window_loop dedup_window_seconds group_logs)
         (make_groups logs)"

text \<open>
  A window keeps to its start when every member's timestamp is within
  \<open>dedup_window_seconds\<close> of the timestamp of the window's first member. The timestamp
  range of a window goes from its least to its greatest member timestamp; two ranges
  overlap when each begins no later than the other ends.
\<close>

definition within_window :: "int \<Rightarrow> log list \<Rightarrow> bool" where
  "within_window dedup_window_seconds window_group =
     list_all (\<lambda>x. \<bar>instant x - instant (hd window_group)\<bar> \<le> dedup_window_seconds * 1000000)
              window_group"

definition ts_range :: "log list \<Rightarrow> int \<times> int" where
  "ts_range window_group = (Min (set (map instant window_group)), Max (set (map instant window_group)))"

definition ranges_overlap :: "log list \<Rightarrow> log list \<Rightarrow> bool" where
  "ranges_overlap a b =
     (fst (ts_range a) \<le> snd (ts_range b) \<and> fst (ts_range b) \<le> snd (ts_range a))"

fun consecutive_disjoint :: "log list list \<Rightarrow> bool" where
  "consecutive_disjoint (a # b # rest) = (\<not> ranges_overlap a b \<and> consecutive_disjoint (b # rest))"
| "consecutive_disjoint [a] = True"
| "consecutive_disjoint [] = True"

definition windows_ok :: "int \<Rightarrow> log list list \<Rightarrow> bool" where
  "windows_ok dedup_window_seconds windows =
     (list_all (within_window dedup_window_seconds) windows \<and> consecutive_disjoint windows)"

definition all_groups_ok :: "int \<Rightarrow> log list \<Rightarrow> bool" where
  "all_groups_ok dedup_window_seconds logs =
     list_all (\<lambda>r. case r of Inl err \<Rightarrow> True | Inr windows \<Rightarrow> windows_ok dedup_window_seconds windows)
              (group_windows dedup_window_seconds logs)"

text \<open>
  A record can open a window when its timestamp is naive and the end of the window is
  still a datetime.
\<close>

definition walkable :: "int \<Rightarrow> log \<Rightarrow> bool" where
  "walkable dedup_window_seconds x =
     (\<not> aware (log_ts x)
      \<and> (case dt_add_seconds (log_ts x) dedup_window_seconds of
           Inl err \<Rightarrow> False
         | Inr window_end \<Rightarrow> True))"

text \<open>Everything in a summary but its displayed level.\<close>

definition membership :: "summary \<Rightarrow> datetime \<times> datetime \<times> fields \<times> nat \<times> nat" where
  "membership s = (start_ts s, end_ts s, summary_fields s, count s, first_idx s)"

section \<open>Properties\<close>

subsection \<open>Dictionaries and field parsing\<close>

lemma dict_get_filter_key: "dict_get (filter (\<lambda>(k, v). k \<noteq> a) fs) a = None"
  by (induction fs) auto

lemma dict_get_dict_set_other: "k' \<noteq> k \<Longrightarrow> dict_get (dict_set fs k v) k' = dict_get fs k'"
  by (induction fs) auto

lemma dict_get_dict_set_same: "dict_get (dict_set fs k v) k = Some v"
  by (induction fs) auto

lemma normalize_no_user_id:
  "normalize_user_field m = Some n \<Longrightarrow> dict_get n ''user_id'' = None"
  by (auto simp: normalize_user_field_def Let_def dict_get_filter_key dict_get_dict_set_other
           split: option.splits if_splits)

lemma parse_fields_loop_append:
  "parse_fields_loop fs (ps @ qs) =
     (case parse_fields_loop fs ps of None \<Rightarrow> None | Some fs' \<Rightarrow> parse_fields_loop fs' qs)"
  by (induction ps arbitrary: fs) (auto split: prod.splits)

lemma split_eq_first: "CHR ''='' \<notin> set k \<Longrightarrow> split_eq (k @ CHR ''='' # v) = (k, v)"
  by (induction k) (auto simp: split_eq_def)

lemma split_ws_Nil: "split_ws [] = []"
  by (simp add: split_ws_def)

subsection \<open>Sorting\<close>

lemma sum_list_insort_key:
  "sum_list (map g (insort_key f x xs)) = (g x :: nat) + sum_list (map g xs)"
  by (induction xs) auto

lemma sum_list_sort_key: "sum_list (map g (sort_key f xs)) = (sum_list (map g xs) :: nat)"
  by (induction xs) (auto simp: sum_list_insort_key)

lemma map_insort_key: "map h (insort_key (\<lambda>a. g (h a)) x xs) = insort_key g (h x) (map h xs)"
  by (induction xs) auto

lemma map_sort_key: "map h (sort_key (\<lambda>a. g (h a)) xs) = sort_key g (map h xs)"
  by (induction xs) (auto simp: map_insort_key)

lemma sorted_fst: "sorted (map f xs) \<Longrightarrow> sorted (map (fst \<circ> f) xs)"
  for f :: "'a \<Rightarrow> int \<times> nat"
  by (induction xs) (auto simp: less_eq_prod_def)

lemma sorted_hd_least:
  "sorted (map f xs) \<Longrightarrow> y \<in> set xs \<Longrightarrow> f (hd xs) \<le> (f y :: int)"
  by (cases xs) auto

lemma sort_compacted_Inr:
  "sort_compacted compacted = Inr out \<Longrightarrow> out = sort_key sort_key_of compacted"
  by (auto simp: sort_compacted_def split: if_splits)

subsection \<open>Comparing and adding\<close>

lemma dt_le_Inr: "dt_le a b = Inr r \<Longrightarrow> r = (utc_instant a \<le> utc_instant b)"
  by (auto simp: dt_le_def split: if_splits)

lemma dt_add_seconds_instant:
  "dt_add_seconds t s = Inr t' \<Longrightarrow> utc_instant t' = utc_instant t + s * 1000000"
  by (auto simp: dt_add_seconds_def utc_instant_def Let_def split: if_splits option.splits)

subsection \<open>The two loops of the windowing\<close>

text \<open>
  The inner loop cuts the rest of the group in two: what it takes is no later than the
  end of the window, and what it leaves begins with a record that is later.
\<close>

lemma absorb_split:
  "absorb window_end xs = Inr (taken, left) \<Longrightarrow>
     xs = taken @ left
     \<and> (\<forall>x \<in> set taken. instant x \<le> utc_instant window_end)
     \<and> (left \<noteq> [] \<longrightarrow> utc_instant window_end < instant (hd left))"
proof (induction xs arbitrary: taken left)
  case Nil
  then show ?case by simp
next
  case (Cons x xs)
  show ?case
  proof (cases "dt_le (log_ts x) window_end")
    case (Inl err)
    with Cons.prems show ?thesis by simp
  next
    case (Inr r)
    then have r: "r = (instant x \<le> utc_instant window_end)"
      by (simp add: dt_le_Inr instant_def)
    show ?thesis
    proof (cases r)
      case False
      with Inr Cons.prems r show ?thesis by auto
    next
      case True
      with Inr Cons.prems obtain taken' where
        a: "absorb window_end xs = Inr (taken', left)" and t: "taken = x # taken'"
        by (auto split: sum.splits)
      from Cons.IH [OF a] t True r show ?thesis by auto
    qed
  qed
qed

text \<open>The windows of a group are a partition of it into consecutive, non-empty pieces.\<close>

lemma window_loop_concat:
  "window_loop w xs = Inr windows \<Longrightarrow> concat windows = xs \<and> [] \<notin> set windows"
proof (induction w xs arbitrary: windows rule: window_loop.induct)
  case (1 w)
  then show ?case by simp
next
  case (2 w x xs)
  from "2.prems" obtain window_end taken left windows' where
    e: "dt_add_seconds (log_ts x) w = Inr window_end"
    and a: "absorb window_end xs = Inr (taken, left)"
    and l: "window_loop w left = Inr windows'"
    and ws: "windows = (x # taken) # windows'"
    by (auto split: sum.splits)
  from "2.IH" [OF e a refl l] have "concat windows' = left \<and> [] \<notin> set windows'" .
  moreover from absorb_split [OF a] have "xs = taken @ left" by simp
  ultimately show ?case using ws by simp
qed

lemma ranges_apart:
  assumes "a \<noteq> []" and "b \<noteq> []"
    and "\<forall>x \<in> set a. \<forall>y \<in> set b. instant x < instant y"
  shows "\<not> ranges_overlap a b"
proof -
  have "Max (set (map instant a)) < Min (set (map instant b))"
    using assms by simp
  then show ?thesis
    by (simp add: ranges_overlap_def ts_range_def)
qed

lemma window_loop_sorted_ok:
  "0 \<le> w \<Longrightarrow> sorted (map instant xs) \<Longrightarrow> window_loop w xs = Inr windows \<Longrightarrow> windows_ok w windows"
proof (induction w xs arbitrary: windows rule: window_loop.induct)
  case (1 w)
  then show ?case by (simp add: windows_ok_def)
next
  case (2 w x xs)
  from "2.prems"(3) obtain window_end taken left windows' where
    e: "dt_add_seconds (log_ts x) w = Inr window_end"
    and a: "absorb window_end xs = Inr (taken, left)"
    and l: "window_loop w left = Inr windows'"
    and ws: "windows = (x # taken) # windows'"
    by (auto split: sum.splits)
  from absorb_split [OF a] have xs: "xs = taken @ left"
    and early: "\<forall>y \<in> set taken. instant y \<le> utc_instant window_end"
    and late: "left \<noteq> [] \<longrightarrow> utc_instant window_end < instant (hd left)"
    by simp_all
  from dt_add_seconds_instant [OF e] have we: "utc_instant window_end = instant x + w * 1000000"
    by (simp add: instant_def)
  from "2.prems"(2) xs have after: "\<forall>y \<in> set taken \<union> set left. instant x \<le> instant y"
    and sl: "sorted (map instant left)"
    by (auto simp: sorted_append)
  from "2.IH" [OF e a refl "2.prems"(1) sl l] have ih: "windows_ok w windows'" .
  have first: "within_window w (x # taken)"
    using early after we "2.prems"(1) by (auto simp: within_window_def list_all_iff)
  have "consecutive_disjoint ((x # taken) # windows')"
  proof (cases windows')
    case Nil
    then show ?thesis by simp
  next
    case (Cons b rest)
    from window_loop_concat [OF l] Cons have b: "b \<noteq> []" and sub: "set b \<subseteq> set left"
      by auto
    then have ne: "left \<noteq> []" by auto
    have "\<forall>u \<in> set (x # taken). \<forall>y \<in> set b. instant u < instant y"
    proof (intro ballI)
      fix u y
      assume u: "u \<in> set (x # taken)" and y: "y \<in> set b"
      from u early we "2.prems"(1) have "instant u \<le> utc_instant window_end" by auto
      also from late ne have "\<dots> < instant (hd left)" by simp
      also have "\<dots> \<le> instant y"
      proof (rule sorted_hd_least [OF sl])
        from y sub show "y \<in> set left" by (rule subsetD [rotated])
      qed
      finally show "instant u < instant y" .
    qed
    from ranges_apart [OF _ b this] have "\<not> ranges_overlap (x # taken) b" by simp
    with ih Cons show ?thesis by (simp add: windows_ok_def)
  qed
  with first ih ws show ?case by (simp add: windows_ok_def)
qed

subsection \<open>Counting\<close>

lemma count_window_summary: "count (window_summary level e window_group) = length window_group"
  by (simp add: window_summary_def Let_def)

lemma compacted_loop_count:
  "compacted_loop w e gs = Inr compacted \<Longrightarrow>
     sum_list (map count compacted) = sum_list (map (\<lambda>(k, g). length g) gs)
     \<and> (\<forall>s \<in> set compacted. 1 \<le> count s)"
proof (induction gs arbitrary: compacted)
  case Nil
  then show ?case by simp
next
  case (Cons kg gs)
  obtain k g where kg: "kg = (k, g)" by (cases kg)
  from Cons.prems kg obtain windows more where
    w: "window_loop w g = Inr windows"
    and m: "compacted_loop w e gs = Inr more"
    and c: "compacted = map (window_summary (fst k) e) windows @ more"
    by (auto split: sum.splits)
  from window_loop_concat [OF w] have cw: "concat windows = g" and ne: "[] \<notin> set windows"
    by simp_all
  have "sum_list (map count (map (window_summary (fst k) e) windows)) = sum_list (map length windows)"
    by (simp add: comp_def count_window_summary)
  also have "\<dots> = length g"
    using cw [symmetric] by (simp add: length_concat)
  finally have s: "sum_list (map count (map (window_summary (fst k) e) windows)) = length g" .
  have p: "\<forall>s \<in> set (map (window_summary (fst k) e) windows). 1 \<le> count s"
    using ne by (auto simp: count_window_summary Suc_le_eq)
  from Cons.IH [OF m] s p c kg show ?case by auto
qed

lemma length_groups_append:
  "sum_list (map (\<lambda>(k, g). length g) (groups_append gs k x))
     = Suc (sum_list (map (\<lambda>(k, g). length g) gs))"
  by (induction gs) auto

lemma length_group_loop:
  "sum_list (map (\<lambda>(k, g). length g) (group_loop gs logs))
     = sum_list (map (\<lambda>(k, g). length g) gs) + length logs"
  by (induction gs logs rule: group_loop.induct) (auto simp: length_groups_append)

lemma length_read_loop:
  "length (read_loop logs idx ls) = length logs + length (filter (\<lambda>raw. parse_line raw \<noteq> None) ls)"
  by (induction ls arbitrary: logs idx) (auto split: option.splits)

subsection \<open>The threshold does not reach the grouping\<close>

lemma membership_window_summary:
  "membership (window_summary level e window_group) = membership (window_summary level e' window_group)"
  by (simp add: membership_def window_summary_def Let_def)

lemma compacted_loop_membership:
  "map_sum id (map membership) (compacted_loop w e gs)
     = map_sum id (map membership) (compacted_loop w e' gs)"
proof (induction gs)
  case Nil
  show ?case by simp
next
  case (Cons kg gs)
  obtain k g where kg: "kg = (k, g)" by (cases kg)
  show ?case
  proof (cases "window_loop w g")
    case (Inl err)
    with kg show ?thesis by simp
  next
    case (Inr windows)
    have m: "map membership (map (window_summary (fst k) e) windows)
               = map membership (map (window_summary (fst k) e') windows)"
      using membership_window_summary [of "fst k" e _ e'] by simp
    show ?thesis
    proof (cases "compacted_loop w e gs")
      case (Inl err)
      with Cons.IH have "compacted_loop w e' gs = Inl err"
        by (cases "compacted_loop w e' gs") simp_all
      with Inl Inr kg show ?thesis by simp
    next
      case more: (Inr more)
      with Cons.IH obtain more' where
        more': "compacted_loop w e' gs = Inr more'" and eq: "map membership more = map membership more'"
        by (cases "compacted_loop w e' gs") simp_all
      from more more' eq m Inr kg show ?thesis by simp
    qed
  qed
qed

lemma sort_compacted_membership:
  assumes "map membership xs = map membership ys"
  shows "map_sum id (map membership) (sort_compacted xs)
           = map_sum id (map membership) (sort_compacted ys)"
proof -
  let ?key = "\<lambda>m :: datetime \<times> datetime \<times> fields \<times> nat \<times> nat.
                (utc_instant (fst m), snd (snd (snd (snd m))))"
  have ex1: "list_ex (\<lambda>s. aware (start_ts s)) zs = list_ex (\<lambda>m. aware (fst m)) (map membership zs)"
    for zs
    by (simp add: list_ex_iff membership_def)
  have ex2: "list_ex (\<lambda>s. \<not> aware (start_ts s)) zs
               = list_ex (\<lambda>m. \<not> aware (fst m)) (map membership zs)" for zs
    by (simp add: list_ex_iff membership_def)
  have k: "sort_key_of = (\<lambda>s. ?key (membership s))"
    by (simp add: fun_eq_iff sort_key_of_def membership_def)
  have s: "map membership (sort_key sort_key_of zs) = sort_key ?key (map membership zs)" for zs
    unfolding k by (rule map_sort_key)
  show ?thesis
    unfolding sort_compacted_def ex1 ex2 using assms by (simp add: s)
qed

lemma compact_summaries_membership:
  "map_sum id (map membership) (compact_summaries src w e)
     = map_sum id (map membership) (compact_summaries src w e')"
proof (cases "io_error src")
  case True
  then show ?thesis by (simp add: compact_summaries_def)
next
  case False
  let ?gs = "make_groups (read_logs (lines src))"
  show ?thesis
  proof (cases "compacted_loop w e ?gs")
    case (Inl err)
    with compacted_loop_membership [of w e ?gs e'] have "compacted_loop w e' ?gs = Inl err"
      by (cases "compacted_loop w e' ?gs") simp_all
    with Inl False show ?thesis by (simp add: compact_summaries_def)
  next
    case (Inr xs)
    with compacted_loop_membership [of w e ?gs e'] obtain ys where
      ys: "compacted_loop w e' ?gs = Inr ys" and eq: "map membership xs = map membership ys"
      by (cases "compacted_loop w e' ?gs") simp_all
    from sort_compacted_membership [OF eq] Inr ys False show ?thesis
      by (simp add: compact_summaries_def)
  qed
qed

subsection \<open>Groups are the parse-order sublists\<close>

lemma map_of_groups_append:
  "map_of (groups_append gs k x) k' =
     (if k' = k then Some (case map_of gs k of None \<Rightarrow> [x] | Some xs \<Rightarrow> xs @ [x])
      else map_of gs k')"
  by (induction gs) auto

lemma keys_groups_append:
  "map fst (groups_append gs k x) = (if k \<in> set (map fst gs) then map fst gs else map fst gs @ [k])"
proof (induction gs)
  case Nil
  show ?case by simp
next
  case (Cons a gs)
  obtain k' xs where a: "a = (k', xs)" by (cases a)
  show ?case
  proof (cases "k' = k")
    case True
    with a show ?thesis by simp
  next
    case False
    with a Cons.IH show ?thesis by simp
  qed
qed

lemma distinct_groups_append:
  "distinct (map fst gs) \<Longrightarrow> distinct (map fst (groups_append gs k x))"
  by (simp add: keys_groups_append)

text \<open>
  The invariant of the grouping loop: after the records \<open>seen\<close>, the dictionary has one
  entry for each key that occurs among them, and the entry of a key is the list of the
  records with that key, in the order in which they were seen.
\<close>

lemma group_loop_invariant:
  assumes "distinct (map fst gs)"
    and "\<And>k. map_of gs k = (if filter (\<lambda>x. log_key x = k) seen = [] then None
                              else Some (filter (\<lambda>x. log_key x = k) seen))"
  shows "distinct (map fst (group_loop gs logs))
         \<and> map_of (group_loop gs logs) k
             = (if filter (\<lambda>x. log_key x = k) (seen @ logs) = [] then None
                else Some (filter (\<lambda>x. log_key x = k) (seen @ logs)))"
  using assms
proof (induction gs logs arbitrary: seen rule: group_loop.induct)
  case (1 groups)
  then show ?case by simp
next
  case (2 groups ts level fields idx rest)
  let ?x = "(ts, level, fields, idx)"
  let ?gs = "groups_append groups (make_group_key level fields) ?x"
  have key: "make_group_key level fields = log_key ?x"
    by (simp add: log_key_def)
  have d: "distinct (map fst ?gs)"
    using "2.prems"(1) by (rule distinct_groups_append)
  have m: "map_of ?gs k' = (if filter (\<lambda>x. log_key x = k') (seen @ [?x]) = [] then None
                            else Some (filter (\<lambda>x. log_key x = k') (seen @ [?x])))" for k'
    unfolding key by (simp add: map_of_groups_append "2.prems"(2))
  from "2.IH" [OF d m] show ?case by simp
qed

lemma make_groups_filter:
  assumes "(k, g) \<in> set (make_groups logs)"
  shows "g = filter (\<lambda>x. log_key x = k) logs"
proof -
  have inv: "distinct (map fst (make_groups logs))
             \<and> map_of (make_groups logs) k
                 = (if filter (\<lambda>x. log_key x = k) ([] @ logs) = [] then None
                    else Some (filter (\<lambda>x. log_key x = k) ([] @ logs)))"
    unfolding make_groups_def by (rule group_loop_invariant) simp_all
  then have d: "distinct (map fst (make_groups logs))"
    by (rule conjunct1)
  from assms have "map_of (make_groups logs) k = Some g"
    by (simp add: map_of_eq_Some_iff [OF d])
  moreover from inv have "map_of (make_groups logs) k
      = (if filter (\<lambda>x. log_key x = k) logs = [] then None
         else Some (filter (\<lambda>x. log_key x = k) logs))"
    by simp
  ultimately show ?thesis
    by (simp split: if_splits)
qed

subsection \<open>Runs that complete\<close>

lemma dt_add_seconds_aware: "dt_add_seconds t s = Inr t' \<Longrightarrow> aware t' = aware t"
  by (auto simp: dt_add_seconds_def aware_def Let_def split: if_splits)

lemma absorb_naive:
  "\<not> aware window_end \<Longrightarrow> \<forall>x \<in> set xs. \<not> aware (log_ts x) \<Longrightarrow>
     \<exists>taken left. absorb window_end xs = Inr (taken, left)"
proof (induction xs)
  case Nil
  show ?case by simp
next
  case (Cons x xs)
  then obtain taken left where "absorb window_end xs = Inr (taken, left)"
    by auto
  moreover from Cons.prems have "dt_le (log_ts x) window_end
      = Inr (utc_instant (log_ts x) \<le> utc_instant window_end)"
    by (simp add: dt_le_def)
  ultimately show ?case
    by (cases "utc_instant (log_ts x) \<le> utc_instant window_end") simp_all
qed

lemma window_loop_naive:
  "\<forall>x \<in> set xs. walkable w x \<Longrightarrow> \<exists>windows. window_loop w xs = Inr windows"
proof (induction w xs rule: window_loop.induct)
  case (1 w)
  show ?case by simp
next
  case (2 w x xs)
  from "2.prems" obtain window_end where e: "dt_add_seconds (log_ts x) w = Inr window_end"
    and n: "\<not> aware (log_ts x)"
    by (auto simp: walkable_def split: sum.splits)
  from dt_add_seconds_aware [OF e] n have "\<not> aware window_end" by simp
  moreover from "2.prems" have "\<forall>y \<in> set xs. \<not> aware (log_ts y)"
    by (simp add: walkable_def)
  ultimately obtain taken left where a: "absorb window_end xs = Inr (taken, left)"
    using absorb_naive by blast
  from absorb_split [OF a] "2.prems" have "\<forall>y \<in> set left. walkable w y"
    by auto
  from "2.IH" [OF e a refl this] obtain windows where "window_loop w left = Inr windows" ..
  with e a show ?case by simp
qed

lemma start_ts_window_summary:
  "window_group \<noteq> [] \<Longrightarrow>
     start_ts (window_summary level e window_group) \<in> log_ts ` set window_group"
  by (cases window_group) (simp_all add: window_summary_def Let_def log_ts_def)

lemma compacted_loop_naive:
  "\<forall>(k, g) \<in> set gs. \<forall>x \<in> set g. walkable w x \<Longrightarrow>
     \<exists>compacted. compacted_loop w e gs = Inr compacted
                  \<and> (\<forall>s \<in> set compacted. \<not> aware (start_ts s))"
proof (induction gs)
  case Nil
  show ?case by simp
next
  case (Cons kg gs)
  obtain k g where kg: "kg = (k, g)" by (cases kg)
  from Cons.prems kg have g: "\<forall>x \<in> set g. walkable w x" by simp
  then obtain windows where w: "window_loop w g = Inr windows"
    using window_loop_naive by blast
  from Cons.IH Cons.prems obtain more where
    m: "compacted_loop w e gs = Inr more" and mn: "\<forall>s \<in> set more. \<not> aware (start_ts s)"
    by auto
  have "\<not> aware (start_ts (window_summary (fst k) e win))" if "win \<in> set windows" for win
  proof -
    from window_loop_concat [OF w] that have "win \<noteq> []" and "set win \<subseteq> set g"
      by auto
    with start_ts_window_summary [of win "fst k" e] g show ?thesis
      by (auto simp: walkable_def)
  qed
  with w m mn kg show ?case by auto
qed

lemma run_completes:
  assumes "\<not> io_error src"
    and "\<forall>x \<in> set (read_logs (lines src)). walkable w x"
  shows "\<exists>out. compact_summaries src w e = Inr out"
proof -
  let ?logs = "read_logs (lines src)"
  have "\<forall>(k, g) \<in> set (make_groups ?logs). \<forall>x \<in> set g. walkable w x"
    using assms(2) make_groups_filter [of _ _ ?logs] by fastforce
  from compacted_loop_naive [OF this, of e] obtain compacted where
    c: "compacted_loop w e (make_groups ?logs) = Inr compacted"
    and n: "\<forall>s \<in> set compacted. \<not> aware (start_ts s)"
    by blast
  from n have "sort_compacted compacted = Inr (sort_key sort_key_of compacted)"
    by (simp add: sort_compacted_def list_ex_iff)
  with c assms(1) show ?thesis
    by (simp add: compact_summaries_def)
qed

section \<open>The claims\<close>

subsection \<open>Grouping and windowing\<close>

text \<open>
  C1, as the specification states it, does not hold: the members of a group are not
  sorted before the walk. Two records of one group, the later one first in the file and
  five seconds of window: the source puts both into one window that starts at the later
  timestamp, the specification's grouper forms two windows.
\<close>

theorem windows_unsorted_counterexample:
  "group_windows 5 (read_logs [''2024-01-01T10:00:10 INFO a=1'', ''2024-01-01T10:00:00 INFO a=1''])
     = [Inr [[(Datetime 63839700010000000 None, ''INFO'', [(''a'', ''1'')], 0),
              (Datetime 63839700000000000 None, ''INFO'', [(''a'', ''1'')], 1)]]]
   \<and> spec_group_windows 5
        (read_logs [''2024-01-01T10:00:10 INFO a=1'', ''2024-01-01T10:00:00 INFO a=1''])
     = [Inr [[(Datetime 63839700000000000 None, ''INFO'', [(''a'', ''1'')], 1)],
             [(Datetime 63839700010000000 None, ''INFO'', [(''a'', ''1'')], 0)]]]
   \<and> compact_logs
        (Source [''2024-01-01T10:00:10 INFO a=1'', ''2024-01-01T10:00:00 INFO a=1''] False) 5 2
     = Inr [''2024-01-01T10:00:10~10:00:00 INFO a=1 (x2)'']"
  by code_simp

text \<open>
  C1, amended. Every group is the list of the parsed records with its key in their
  original parse order, and the walk goes over that list as it is: its windows, put
  end to end, are the group in parse order. Whenever the walk returns its windows, they
  are the windows of the specification's walk over the sorted members if and only if
  the members already stand in timestamp order, ties in index order; and when the
  members stand in that order the two walks agree, whether they return or raise.
\<close>

theorem windows_in_parse_order:
  assumes "(k, g) \<in> set (make_groups logs)"
  shows "g = filter (\<lambda>x. log_key x = k) logs
         \<and> (\<forall>windows. window_loop w g = Inr windows \<longrightarrow>
               concat windows = g
               \<and> (spec_window_loop w g = Inr windows
                    \<longleftrightarrow> sorted (map (\<lambda>x. (instant x, log_idx x)) g)))
         \<and> (sorted (map (\<lambda>x. (instant x, log_idx x)) g) \<longrightarrow> spec_window_loop w g = window_loop w g)"
proof -
  let ?f = "\<lambda>x. (instant x, log_idx x)"
  have members: "g = filter (\<lambda>x. log_key x = k) logs"
    using assms by (rule make_groups_filter)
  have ordered: "spec_window_loop w g = window_loop w g" if "sorted (map ?f g)"
    using that by (simp add: spec_window_loop_def spec_sort_group_def sort_key_id_if_sorted)
  have walk: "concat windows = g \<and> (spec_window_loop w g = Inr windows \<longleftrightarrow> sorted (map ?f g))"
    if r: "window_loop w g = Inr windows" for windows
  proof -
    from window_loop_concat [OF r] have c: "concat windows = g" by simp
    have "sorted (map ?f g)" if "spec_window_loop w g = Inr windows"
    proof -
      from that have "window_loop w (sort_key ?f g) = Inr windows"
        by (simp add: spec_window_loop_def spec_sort_group_def)
      from window_loop_concat [OF this] c have "sort_key ?f g = g" by simp
      with sorted_sort_key [of ?f g] show ?thesis by simp
    qed
    moreover have "spec_window_loop w g = Inr windows" if "sorted (map ?f g)"
      using ordered [OF that] r by simp
    ultimately show ?thesis using c by blast
  qed
  from members walk ordered show ?thesis by blast
qed

theorem windows_in_parse_order_witness:
  "window_loop 5 [(Datetime 63839700010000000 None, ''INFO'', [(''a'', ''1'')], 0),
                  (Datetime 63839700000000000 None, ''INFO'', [(''a'', ''1'')], 1)]
     = Inr [[(Datetime 63839700010000000 None, ''INFO'', [(''a'', ''1'')], 0),
             (Datetime 63839700000000000 None, ''INFO'', [(''a'', ''1'')], 1)]]
   \<and> [(Datetime 63839700010000000 None, ''INFO'', [(''a'', ''1'')], 0),
       (Datetime 63839700000000000 None, ''INFO'', [(''a'', ''1'')], 1)]
     = filter (\<lambda>x. log_key x = (''INFO'', [(''a'', ''1'')]))
         (read_logs [''2024-01-01T10:00:10 INFO a=1'', ''2024-01-01T10:00:00 INFO a=1''])
   \<and> spec_window_loop 5 [(Datetime 63839700010000000 None, ''INFO'', [(''a'', ''1'')], 0),
                         (Datetime 63839700000000000 None, ''INFO'', [(''a'', ''1'')], 1)]
     \<noteq> Inr [[(Datetime 63839700010000000 None, ''INFO'', [(''a'', ''1'')], 0),
              (Datetime 63839700000000000 None, ''INFO'', [(''a'', ''1'')], 1)]]"
proof -
  let ?g = "[(Datetime 63839700010000000 None, ''INFO'', [(''a'', ''1'')], 0 :: nat),
             (Datetime 63839700000000000 None, ''INFO'', [(''a'', ''1'')], 1)]"
  let ?logs = "read_logs [''2024-01-01T10:00:10 INFO a=1'', ''2024-01-01T10:00:00 INFO a=1'']"
  have h: "((''INFO'', [(''a'', ''1'')]), ?g) \<in> set (make_groups ?logs)"
    by code_simp
  have r: "window_loop 5 ?g = Inr [?g]"
    by code_simp
  have u: "\<not> sorted (map (\<lambda>x. (instant x, log_idx x)) ?g)"
    by code_simp
  note t = windows_in_parse_order [OF h, of 5]
  from t have m: "?g = filter (\<lambda>x. log_key x = (''INFO'', [(''a'', ''1'')])) ?logs"
    by (rule conjunct1)
  from t r u have s: "spec_window_loop 5 ?g \<noteq> Inr [?g]"
    by blast
  show ?thesis
    by (rule conjI [OF r conjI [OF m s]])
qed

text \<open>
  C2, as the specification states it, does not hold. Three records of one group at
  10:00:10, 10:00:20 and 10:00:05, in this order in the file, and five seconds of
  window: the second window starts at 10:00:20 and takes the record of 10:00:05, which
  is fifteen seconds from its start, and its range from 10:00:05 to 10:00:20 contains
  the first window.
\<close>

theorem windows_overlap_counterexample:
  "group_windows 5
     (read_logs [''2024-01-01T10:00:10 INFO a=1'', ''2024-01-01T10:00:20 INFO a=1'',
                 ''2024-01-01T10:00:05 INFO a=1''])
     = [Inr [[(Datetime 63839700010000000 None, ''INFO'', [(''a'', ''1'')], 0)],
             [(Datetime 63839700020000000 None, ''INFO'', [(''a'', ''1'')], 1),
              (Datetime 63839700005000000 None, ''INFO'', [(''a'', ''1'')], 2)]]]
   \<and> \<not> all_groups_ok 5
         (read_logs [''2024-01-01T10:00:10 INFO a=1'', ''2024-01-01T10:00:20 INFO a=1'',
                     ''2024-01-01T10:00:05 INFO a=1''])"
  by code_simp

text \<open>
  C2, amended. For a window length that is not negative and a group whose members stand
  in the input in timestamp order, the windows of the group satisfy: every member's
  timestamp is within \<open>dedup_window_seconds\<close> of the timestamp of its window's first
  member, and the timestamp ranges of consecutive windows do not overlap.
\<close>

theorem windows_of_ordered_group:
  assumes "(k, g) \<in> set (make_groups logs)"
    and "0 \<le> w"
    and "sorted (map instant g)"
    and "window_loop w g = Inr windows"
  shows "windows_ok w windows"
  using assms(2-4) by (rule window_loop_sorted_ok)

theorem windows_of_ordered_group_witness:
  "windows_ok 5 [[(Datetime 63839700000000000 None, ''INFO'', [(''a'', ''1'')], 0),
                  (Datetime 63839700003000000 None, ''INFO'', [(''a'', ''1'')], 1)],
                 [(Datetime 63839700020000000 None, ''INFO'', [(''a'', ''1'')], 2)]]"
proof -
  let ?g = "[(Datetime 63839700000000000 None, ''INFO'', [(''a'', ''1'')], 0 :: nat),
             (Datetime 63839700003000000 None, ''INFO'', [(''a'', ''1'')], 1),
             (Datetime 63839700020000000 None, ''INFO'', [(''a'', ''1'')], 2)]"
  have 1: "((''INFO'', [(''a'', ''1'')]), ?g)
           \<in> set (make_groups
                 (read_logs [''2024-01-01T10:00:00 INFO a=1'', ''2024-01-01T10:00:03 INFO a=1'',
                             ''2024-01-01T10:00:20 INFO a=1'']))"
    by code_simp
  have 2: "(0 :: int) \<le> 5" by simp
  have 3: "sorted (map instant ?g)" by code_simp
  have 4: "window_loop 5 ?g
             = Inr [[(Datetime 63839700000000000 None, ''INFO'', [(''a'', ''1'')], 0),
                     (Datetime 63839700003000000 None, ''INFO'', [(''a'', ''1'')], 1)],
                    [(Datetime 63839700020000000 None, ''INFO'', [(''a'', ''1'')], 2)]]"
    by code_simp
  from windows_of_ordered_group [OF 1 2 3 4] show ?thesis .
qed

subsection \<open>Summaries\<close>

text \<open>
  C3, as the specification states it, does not hold for every input. A record at the
  last second of the year 9999 passes the parser, and the end of its window is beyond
  the last datetime: the run raises and emits nothing. And when reading fails after a
  line has been parsed, the run ends without output.
\<close>

theorem conservation_counterexample:
  "compact_summaries (Source [''9999-12-31T23:59:59 INFO a=1''] False) 1 2 = Inl OverflowError
   \<and> sum_list (map count
        (emitted (compact_summaries (Source [''9999-12-31T23:59:59 INFO a=1''] False) 1 2))) = 0
   \<and> length (read_logs [''9999-12-31T23:59:59 INFO a=1'']) = 1
   \<and> sum_list (map count
        (emitted (compact_summaries (Source [''2024-01-01T10:00:00 INFO a=1''] True) 1 2))) = 0
   \<and> length (read_logs [''2024-01-01T10:00:00 INFO a=1'']) = 1"
  by code_simp

text \<open>
  C3, amended. When the source is read to its end and the run completes, the counts of
  the emitted summaries add up to the number of lines that pass parsing and field
  normalization, and no summary has the count zero. The run completes whenever every
  parsed timestamp is naive and the end of a window that starts at it is a datetime.
\<close>

theorem conservation:
  assumes "\<not> io_error src"
  shows "(compact_summaries src w e = Inr out \<longrightarrow>
            sum_list (map count out) = length (filter (\<lambda>raw. parse_line raw \<noteq> None) (lines src))
            \<and> (\<forall>s \<in> set out. 1 \<le> count s))
         \<and> ((\<forall>x \<in> set (read_logs (lines src)). walkable w x) \<longrightarrow>
            (\<exists>out'. compact_summaries src w e = Inr out'))"
proof (intro conjI impI)
  assume r: "compact_summaries src w e = Inr out"
  with assms obtain compacted where
    c: "compacted_loop w e (make_groups (read_logs (lines src))) = Inr compacted"
    and s: "sort_compacted compacted = Inr out"
    by (auto simp: compact_summaries_def Let_def split: sum.splits)
  from sort_compacted_Inr [OF s] have out: "out = sort_key sort_key_of compacted" .
  have "sum_list (map count out) = sum_list (map count compacted)"
    by (simp add: out sum_list_sort_key)
  also have "\<dots> = sum_list (map (\<lambda>(k, g). length g) (make_groups (read_logs (lines src))))"
    using compacted_loop_count [OF c] by simp
  also have "\<dots> = length (read_logs (lines src))"
    by (simp add: make_groups_def length_group_loop)
  also have "\<dots> = length (filter (\<lambda>raw. parse_line raw \<noteq> None) (lines src))"
    by (simp add: read_logs_def length_read_loop)
  finally show "sum_list (map count out)
                  = length (filter (\<lambda>raw. parse_line raw \<noteq> None) (lines src))" .
  show "\<forall>s \<in> set out. 1 \<le> count s"
    using compacted_loop_count [OF c] by (simp add: out)
next
  assume "\<forall>x \<in> set (read_logs (lines src)). walkable w x"
  with assms show "\<exists>out'. compact_summaries src w e = Inr out'"
    by (rule run_completes)
qed

theorem conservation_witness:
  "compact_summaries
     (Source [''2024-01-01T10:00:00 INFO user_id=42'', ''not a valid log line'',
              ''2024-01-01T10:00:05 INFO user=42'', ''2024-01-01T11:00:00 WARN code=503''] False)
     10 2
     = Inr [Summary (Datetime 63839700000000000 None) (Datetime 63839700005000000 None)
              ''INFO'' [(''user'', ''42'')] 2 0,
            Summary (Datetime 63839703600000000 None) (Datetime 63839703600000000 None)
              ''ERROR'' [(''code'', ''503'')] 1 2]
   \<and> sum_list (map count
        [Summary (Datetime 63839700000000000 None) (Datetime 63839700005000000 None)
           ''INFO'' [(''user'', ''42'')] 2 0,
         Summary (Datetime 63839703600000000 None) (Datetime 63839703600000000 None)
           ''ERROR'' [(''code'', ''503'')] 1 2])
     = length (filter (\<lambda>raw. parse_line raw \<noteq> None)
         (lines (Source [''2024-01-01T10:00:00 INFO user_id=42'', ''not a valid log line'',
                         ''2024-01-01T10:00:05 INFO user=42'',
                         ''2024-01-01T11:00:00 WARN code=503''] False)))"
proof -
  let ?src = "Source [''2024-01-01T10:00:00 INFO user_id=42'', ''not a valid log line'',
                      ''2024-01-01T10:00:05 INFO user=42'', ''2024-01-01T11:00:00 WARN code=503'']
                     False"
  let ?out = "[Summary (Datetime 63839700000000000 None) (Datetime 63839700005000000 None)
                 ''INFO'' [(''user'', ''42'')] 2 0,
               Summary (Datetime 63839703600000000 None) (Datetime 63839703600000000 None)
                 ''ERROR'' [(''code'', ''503'')] 1 2]"
  have 1: "\<not> io_error ?src" by simp
  have 2: "compact_summaries ?src 10 2 = Inr ?out"
    by code_simp
  have 3: "\<forall>x \<in> set (read_logs (lines ?src)). walkable 10 x"
    by code_simp
  note c = conservation [OF 1, of 10 2 ?out]
  from c 2 have a: "sum_list (map count ?out)
                      = length (filter (\<lambda>raw. parse_line raw \<noteq> None) (lines ?src))"
    by blast
  from c 3 have "\<exists>out'. compact_summaries ?src 10 2 = Inr out'"
    by blast
  from 2 a show ?thesis by (rule conjI)
qed

text \<open>
  C6. A window of a group whose level is \<^verbatim>\<open>ERROR\<close> is displayed as \<^verbatim>\<open>CRITICAL\<close> when it has
  exactly \<open>error_threshold\<close> members, and as \<^verbatim>\<open>ERROR\<close> when it has \<open>error_threshold - 1\<close>.
  Escalation changes nothing but the displayed level: with any other threshold the run
  gives the same summaries (or the same error) up to their levels, so the same groups
  and the same windows.
\<close>

theorem escalation_threshold:
  "(int (length window_group) = error_threshold \<longrightarrow>
      output_level (window_summary ''ERROR'' error_threshold window_group) = ''CRITICAL'')
   \<and> (int (length window_group) = error_threshold - 1 \<longrightarrow>
      output_level (window_summary ''ERROR'' error_threshold window_group) = ''ERROR'')
   \<and> map_sum id (map membership) (compact_summaries src w error_threshold)
       = map_sum id (map membership) (compact_summaries src w e')"
  using compact_summaries_membership [of src w error_threshold e']
  by (simp add: window_summary_def Let_def)

theorem escalation_threshold_witness:
  "output_level (window_summary ''ERROR'' 2
     [(Datetime 63839700000000000 None, ''ERROR'', [(''code'', ''503'')], 0),
      (Datetime 63839700005000000 None, ''ERROR'', [(''code'', ''503'')], 1)]) = ''CRITICAL''
   \<and> output_level (window_summary ''ERROR'' 3
     [(Datetime 63839700000000000 None, ''ERROR'', [(''code'', ''503'')], 0),
      (Datetime 63839700005000000 None, ''ERROR'', [(''code'', ''503'')], 1)]) = ''ERROR''
   \<and> compact_logs
        (Source [''2024-01-01T10:00:00 WARN code=503'', ''2024-01-01T10:00:05 ERROR code=503''] False)
        10 2
     = Inr [''2024-01-01T10:00:00~10:00:05 CRITICAL code=503 (x2)'']
   \<and> compact_logs
        (Source [''2024-01-01T10:00:00 WARN code=503'', ''2024-01-01T10:00:05 ERROR code=503''] False)
        10 3
     = Inr [''2024-01-01T10:00:00~10:00:05 ERROR code=503 (x2)'']"
proof -
  let ?w = "[(Datetime 63839700000000000 None, ''ERROR'', [(''code'', ''503'')], 0 :: nat),
             (Datetime 63839700005000000 None, ''ERROR'', [(''code'', ''503'')], 1)]"
  have 1: "int (length ?w) = 2" and 2: "int (length ?w) = 3 - 1"
    by simp_all
  have 3: "compact_logs
             (Source [''2024-01-01T10:00:00 WARN code=503'', ''2024-01-01T10:00:05 ERROR code=503'']
                     False) 10 2
           = Inr [''2024-01-01T10:00:00~10:00:05 CRITICAL code=503 (x2)'']"
    by code_simp
  have 4: "compact_logs
             (Source [''2024-01-01T10:00:00 WARN code=503'', ''2024-01-01T10:00:05 ERROR code=503'']
                     False) 10 3
           = Inr [''2024-01-01T10:00:00~10:00:05 ERROR code=503 (x2)'']"
    by code_simp
  from escalation_threshold [of ?w 2] 1 have
    "output_level (window_summary ''ERROR'' 2 ?w) = ''CRITICAL''" by blast
  moreover from escalation_threshold [of ?w 3] 2 have
    "output_level (window_summary ''ERROR'' 3 ?w) = ''ERROR''" by blast
  ultimately show ?thesis using 3 4 by simp
qed

subsection \<open>Order of the output\<close>

text \<open>
  C7. The emitted summaries, and with them the emitted lines, are sorted by start
  timestamp and first sequence index; in particular their start timestamps never
  decrease.
\<close>

theorem output_sorted:
  "sorted (map sort_key_of (emitted (compact_summaries src w e)))
   \<and> sorted (map (utc_instant \<circ> start_ts) (emitted (compact_summaries src w e)))
   \<and> emitted (compact_logs src w e) = map format_summary (emitted (compact_summaries src w e))"
proof -
  have 1: "sorted (map sort_key_of (emitted (compact_summaries src w e)))"
    by (auto simp: emitted_def compact_summaries_def Let_def sort_compacted_def split: sum.splits)
  from sorted_fst [OF 1]
  have 2: "sorted (map (utc_instant \<circ> start_ts) (emitted (compact_summaries src w e)))"
    by (simp add: comp_def sort_key_of_def)
  have 3: "emitted (compact_logs src w e) = map format_summary (emitted (compact_summaries src w e))"
    by (simp add: emitted_def compact_logs_def split: sum.splits)
  from 1 2 3 show ?thesis by simp
qed

theorem output_sorted_witness:
  "compact_summaries
     (Source [''2024-01-01T10:00:00 INFO a=1'', ''2024-01-01T10:00:01 WARN b=2'',
              ''2024-01-01T10:00:20 INFO a=1''] False) 5 2
     = Inr [Summary (Datetime 63839700000000000 None) (Datetime 63839700000000000 None)
              ''INFO'' [(''a'', ''1'')] 1 0,
            Summary (Datetime 63839700001000000 None) (Datetime 63839700001000000 None)
              ''WARN'' [(''b'', ''2'')] 1 1,
            Summary (Datetime 63839700020000000 None) (Datetime 63839700020000000 None)
              ''INFO'' [(''a'', ''1'')] 1 2]
   \<and> sorted (map sort_key_of (emitted (compact_summaries
        (Source [''2024-01-01T10:00:00 INFO a=1'', ''2024-01-01T10:00:01 WARN b=2'',
                 ''2024-01-01T10:00:20 INFO a=1''] False) 5 2)))
   \<and> emitted (compact_logs
        (Source [''2024-01-01T10:00:00 INFO a=1'', ''2024-01-01T10:00:01 WARN b=2'',
                 ''2024-01-01T10:00:20 INFO a=1''] False) 5 2)
     = [''2024-01-01T10:00:00 INFO a=1'', ''2024-01-01T10:00:01 WARN b=2'',
        ''2024-01-01T10:00:20 INFO a=1'']"
proof -
  let ?src = "Source [''2024-01-01T10:00:00 INFO a=1'', ''2024-01-01T10:00:01 WARN b=2'',
                      ''2024-01-01T10:00:20 INFO a=1''] False"
  have c: "compact_summaries ?src 5 2
             = Inr [Summary (Datetime 63839700000000000 None) (Datetime 63839700000000000 None)
                      ''INFO'' [(''a'', ''1'')] 1 0,
                    Summary (Datetime 63839700001000000 None) (Datetime 63839700001000000 None)
                      ''WARN'' [(''b'', ''2'')] 1 1,
                    Summary (Datetime 63839700020000000 None) (Datetime 63839700020000000 None)
                      ''INFO'' [(''a'', ''1'')] 1 2]"
    by code_simp
  have l: "emitted (compact_logs ?src 5 2)
             = [''2024-01-01T10:00:00 INFO a=1'', ''2024-01-01T10:00:01 WARN b=2'',
                ''2024-01-01T10:00:20 INFO a=1'']"
    by code_simp
  from output_sorted [of ?src 5 2]
  have s: "sorted (map sort_key_of (emitted (compact_summaries ?src 5 2)))"
    by (rule conjunct1)
  show ?thesis
    by (rule conjI [OF c conjI [OF s l]])
qed

subsection \<open>The parser\<close>

text \<open>
  C4. The docstring of \<^verbatim>\<open>parse_timestamp\<close> says that it parses a timestamp without
  timezone, and the claim says that a line is kept only then. The code keeps a line whose
  first token carries an offset, as an aware timestamp, and a line whose first token is
  a bare date, as midnight of that day.
\<close>

theorem offset_and_bare_date_kept:
  "parse_line ''2024-01-01T10:00:00+02:00 INFO a=1''
     = Some (Datetime 63839700000000000 (Some 7200000000), ''INFO'', [(''a'', ''1'')])
   \<and> parse_line ''2024-01-01 INFO a=1''
     = Some (Datetime 63839664000000000 None, ''INFO'', [(''a'', ''1'')])
   \<and> compact_logs
        (Source [''2024-01-01T10:00:00 INFO a=1'', ''2024-01-01T10:00:00+02:00 INFO a=1''] False) 10 2
     = Inl TypeError"
  by code_simp

text \<open>
  C5, as the specification states it, does not hold: a digit in the level does not
  discard the line.
\<close>

theorem level_with_digit_counterexample:
  "parse_line ''2024-01-01T10:00:00 ERROR1 a=1''
     = Some (Datetime 63839700000000000 None, ''ERROR1'', [(''a'', ''1'')])
   \<and> \<not> list_all upper_letter ''ERROR1''"
  by code_simp

text \<open>
  C5, amended. A line is kept only if its second token has at least one uppercase
  letter and no lowercase letter, and a line with such a second token is kept whenever
  its timestamp parses, its field tokens parse and normalization accepts the fields:
  characters without case, such as digits and punctuation, do not discard the line, and
  putting one into a level never changes the outcome of the level check.
\<close>

theorem level_check:
  "(parse_line raw = Some r \<longrightarrow>
      list_ex upper_letter (split_ws (strip raw) ! 1)
      \<and> \<not> list_ex lower_letter (split_ws (strip raw) ! 1))
   \<and> (split_ws (strip raw) = ts_str # level # parts
       \<and> parse_timestamp ts_str = Some ts
       \<and> parse_fields parts = Some fields
       \<and> normalize_user_field fields = Some fields'
       \<and> list_ex upper_letter level \<and> \<not> list_ex lower_letter level \<longrightarrow>
      parse_line raw = Some (ts, apply_code_override level fields', fields'))
   \<and> (\<not> upper_letter c \<and> \<not> lower_letter c \<longrightarrow> isupper (a @ c # b) = isupper (a @ b))"
proof (intro conjI impI)
  assume "parse_line raw = Some r"
  then show "list_ex upper_letter (split_ws (strip raw) ! 1)"
    and "\<not> list_ex lower_letter (split_ws (strip raw) ! 1)"
    by (auto simp: parse_line_def Let_def isupper_def split: if_splits option.splits)
next
  assume h: "split_ws (strip raw) = ts_str # level # parts
       \<and> parse_timestamp ts_str = Some ts
       \<and> parse_fields parts = Some fields
       \<and> normalize_user_field fields = Some fields'
       \<and> list_ex upper_letter level \<and> \<not> list_ex lower_letter level"
  then have ne: "strip raw \<noteq> []"
    using split_ws_Nil by auto
  from h have "level \<noteq> []" by auto
  with h ne show "parse_line raw = Some (ts, apply_code_override level fields', fields')"
    by (simp add: parse_line_def Let_def isupper_def)
next
  assume "\<not> upper_letter c \<and> \<not> lower_letter c"
  then show "isupper (a @ c # b) = isupper (a @ b)"
    by (simp add: isupper_def)
qed

theorem level_check_witness:
  "parse_line ''2024-01-01T10:00:00 E2 a=1''
     = Some (Datetime 63839700000000000 None, ''E2'', [(''a'', ''1'')])
   \<and> list_ex upper_letter (split_ws (strip ''2024-01-01T10:00:00 E2 a=1'') ! 1)
   \<and> \<not> list_ex lower_letter (split_ws (strip ''2024-01-01T10:00:00 E2 a=1'') ! 1)
   \<and> isupper ''E2'' = isupper ''E''"
proof -
  let ?raw = "''2024-01-01T10:00:00 E2 a=1''"
  let ?ts = "Datetime 63839700000000000 None"
  note t = level_check [of ?raw "(?ts, ''E2'', [(''a'', ''1'')])" "''2024-01-01T10:00:00''" "''E2''"
                           "[''a=1'']" ?ts "[(''a'', ''1'')]" "[(''a'', ''1'')]"
                           "CHR ''2''" "''E''" "[]"]
  have 1: "split_ws (strip ?raw) = ''2024-01-01T10:00:00'' # ''E2'' # [''a=1'']" by code_simp
  have 2: "parse_timestamp ''2024-01-01T10:00:00'' = Some ?ts" by code_simp
  have 3: "parse_fields [''a=1''] = Some [(''a'', ''1'')]" by code_simp
  have 4: "normalize_user_field [(''a'', ''1'')] = Some [(''a'', ''1'')]" by code_simp
  have 5: "list_ex upper_letter ''E2''" by code_simp
  have 6: "\<not> list_ex lower_letter ''E2''" by code_simp
  have 7: "apply_code_override ''E2'' [(''a'', ''1'')] = ''E2''" by code_simp
  have 8: "\<not> upper_letter CHR ''2'' \<and> \<not> lower_letter CHR ''2''" by code_simp
  from t 1 2 3 4 5 6 have "parse_line ?raw = Some (?ts, apply_code_override ''E2'' [(''a'', ''1'')],
                                                    [(''a'', ''1'')])"
    by blast
  with 7 have k: "parse_line ?raw = Some (?ts, ''E2'', [(''a'', ''1'')])"
    by simp
  from t k have l: "list_ex upper_letter (split_ws (strip ?raw) ! 1)
                    \<and> \<not> list_ex lower_letter (split_ws (strip ?raw) ! 1)"
    by blast
  from t 8 have "isupper (''E'' @ CHR ''2'' # []) = isupper (''E'' @ [])"
    by blast
  then have i: "isupper ''E2'' = isupper ''E''"
    by simp
  from k l i show ?thesis by blast
qed

text \<open>
  C10. A field token whose key or value is empty is accepted. On a line whose timestamp
  and level are valid and whose other field tokens parse, a token \<open>k=v\<close> (cut at its
  first \<^verbatim>\<open>=\<close>; \<open>k\<close>, \<open>v\<close> or both may be empty) is recorded as \<open>k\<close> mapped to \<open>v\<close>, and
  the line is kept whenever normalization accepts the fields.
\<close>

theorem empty_key_or_value_accepted:
  assumes tokens: "split_ws (strip raw) = ts_str # level # before @ [k @ ''='' @ v] @ after"
    and k: "CHR ''='' \<notin> set k"
    and ts: "parse_timestamp ts_str = Some ts"
    and level: "level \<noteq> []" "isupper level"
    and before: "parse_fields before = Some fields"
    and after: "parse_fields_loop (dict_set fields k v) after = Some fields2"
    and norm: "normalize_user_field fields2 = Some fields'"
  shows "parse_fields (before @ [k @ ''='' @ v]) = Some (dict_set fields k v)
         \<and> dict_get (dict_set fields k v) k = Some v
         \<and> parse_line raw = Some (ts, apply_code_override level fields', fields')"
proof -
  have pf: "parse_fields (before @ [k @ ''='' @ v]) = Some (dict_set fields k v)"
    using before k by (simp add: parse_fields_def parse_fields_loop_append split_eq_first)
  have "parse_fields ((before @ [k @ ''='' @ v]) @ after) = Some fields2"
    using pf after unfolding parse_fields_def parse_fields_loop_append [of _ _ after] by simp
  then have all: "parse_fields (before @ [k @ ''='' @ v] @ after) = Some fields2"
    by simp
  have ne: "strip raw \<noteq> []"
    using tokens split_ws_Nil by auto
  have "parse_line raw = Some (ts, apply_code_override level fields', fields')"
    using ne tokens ts level all norm by (simp add: parse_line_def Let_def)
  with pf show ?thesis by (simp add: dict_get_dict_set_same)
qed

theorem empty_key_or_value_accepted_witness:
  "parse_line ''2024-01-01T10:00:00 INFO =v k= =''
     = Some (Datetime 63839700000000000 None, ''INFO'', [('''', ''''), (''k'', '''')])
   \<and> compact_logs (Source [''2024-01-01T10:00:00 INFO =v k= =''] False) 10 2
     = Inr [''2024-01-01T10:00:00 INFO = k='']"
proof -
  have 1: "split_ws (strip ''2024-01-01T10:00:00 INFO =v k= ='')
             = ''2024-01-01T10:00:00'' # ''INFO'' # [''=v''] @ [''k'' @ ''='' @ ''''] @ [''='']"
    by code_simp
  have 2: "CHR ''='' \<notin> set ''k''" by simp
  have 3: "parse_timestamp ''2024-01-01T10:00:00'' = Some (Datetime 63839700000000000 None)"
    by code_simp
  have 4: "''INFO'' \<noteq> []" by simp
  have 5: "isupper ''INFO''" by code_simp
  have 6: "parse_fields [''=v''] = Some [('''', ''v'')]" by code_simp
  have 7: "parse_fields_loop (dict_set [('''', ''v'')] ''k'' '''') [''='']
             = Some [('''', ''''), (''k'', '''')]"
    by code_simp
  have 8: "normalize_user_field [('''', ''''), (''k'', '''')] = Some [('''', ''''), (''k'', '''')]"
    by code_simp
  have 9: "apply_code_override ''INFO'' [('''', ''''), (''k'', '''')] = ''INFO''" by code_simp
  have 10: "compact_logs (Source [''2024-01-01T10:00:00 INFO =v k= =''] False) 10 2
              = Inr [''2024-01-01T10:00:00 INFO = k='']"
    by code_simp
  from empty_key_or_value_accepted [OF 1 2 3 4 5 6 7 8] 9 10 show ?thesis by simp
qed

subsection \<open>The normalizer\<close>

text \<open>
  C8. Normalization is idempotent on its successful results: if it maps the fields \<open>m\<close>
  to \<open>n\<close>, then it maps \<open>n\<close> to \<open>n\<close>.
\<close>

theorem normalize_idempotent:
  assumes "normalize_user_field m = Some n"
  shows "normalize_user_field n = Some n"
proof -
  have "dict_get n ''user_id'' = None"
    using assms by (rule normalize_no_user_id)
  then show ?thesis
    by (simp add: normalize_user_field_def)
qed

theorem normalize_idempotent_witness:
  "normalize_user_field [(''user_id'', ''42''), (''a'', ''b'')]
     = Some [(''a'', ''b''), (''user'', ''42'')]
   \<and> normalize_user_field [(''a'', ''b''), (''user'', ''42'')]
     = Some [(''a'', ''b''), (''user'', ''42'')]"
proof -
  have h: "normalize_user_field [(''user_id'', ''42''), (''a'', ''b'')]
             = Some [(''a'', ''b''), (''user'', ''42'')]"
    by code_simp
  from h normalize_idempotent [OF h] show ?thesis by simp
qed

subsection \<open>An unreadable source\<close>

text \<open>
  C9. When opening or reading the source fails with an I/O error, the run yields the
  empty sequence and no error, whatever was read before.
\<close>

theorem io_error_empty_output:
  assumes "io_error src"
  shows "compact_logs src dedup_window_seconds error_threshold = Inr []"
  using assms by (simp add: compact_logs_def compact_summaries_def)

theorem io_error_empty_output_witness:
  "io_error (Source [''2024-01-01T10:00:00 INFO a=1''] True)
   \<and> compact_logs (Source [''2024-01-01T10:00:00 INFO a=1''] True) 10 2 = Inr []"
proof -
  have h: "io_error (Source [''2024-01-01T10:00:00 INFO a=1''] True)" by simp
  from h io_error_empty_output [OF h] show ?thesis by simp
qed

end
